theory Spec2Isabelle
  imports Main
begin

section \<open>Python string primitives\<close>

text \<open>
  A Python \<open>str\<close> is modelled as a \<open>string\<close>; a \<open>char\<close> stands for the code point
  of the same number (code points below 256). The tables below are those of
  \<open>str.isspace\<close>, \<open>str.splitlines\<close> and \<open>str.isalnum\<close> on these code points.
\<close>

definition isspace :: "char \<Rightarrow> bool" where
  "isspace c = (c \<in> set [CHR 0x09, CHR 0x0A, CHR 0x0B, CHR 0x0C, CHR 0x0D,
                          CHR 0x1C, CHR 0x1D, CHR 0x1E, CHR 0x1F, CHR '' '',
                          CHR 0x85, CHR 0xA0])"

definition islinebreak :: "char \<Rightarrow> bool" where
  "islinebreak c = (c \<in> set [CHR 0x0A, CHR 0x0B, CHR 0x0C, CHR 0x0D,
                              CHR 0x1C, CHR 0x1D, CHR 0x1E, CHR 0x85])"

definition isalnum :: "char \<Rightarrow> bool" where
  "isalnum c = (let n = (of_char c :: nat) in
      (48 \<le> n \<and> n \<le> 57) \<or> (65 \<le> n \<and> n \<le> 90) \<or> (97 \<le> n \<and> n \<le> 122) \<or>
      n \<in> set [170, 178, 179, 181, 185, 186, 188, 189, 190] \<or>
      (192 \<le> n \<and> n \<le> 214) \<or> (216 \<le> n \<and> n \<le> 246) \<or> (248 \<le> n \<and> n \<le> 255))"

definition lstrip :: "string \<Rightarrow> string" where
  "lstrip s = dropWhile isspace s"

definition rstrip :: "string \<Rightarrow> string" where
  "rstrip s = rev (dropWhile isspace (rev s))"

definition strip :: "string \<Rightarrow> string" where
  "strip s = lstrip (rstrip s)"

definition startswith :: "string \<Rightarrow> string \<Rightarrow> bool" where
  "startswith s p = (take (length p) s = p)"

definition endswith :: "string \<Rightarrow> string \<Rightarrow> bool" where
  "endswith s p = (length p \<le> length s \<and> drop (length s - length p) s = p)"

text \<open>\<open>s.find(c, start)\<close> for a one-character \<open>c\<close>: the first index at or after
  \<open>start\<close> that holds \<open>c\<close>, or \<open>-1\<close>.\<close>

fun find_from :: "char \<Rightarrow> nat \<Rightarrow> string \<Rightarrow> int" where
  "find_from c k [] = - 1"
| "find_from c k (x # xs) =
     (if x = c then int k
      else find_from c (Suc k) xs)"

definition find_char :: "string \<Rightarrow> char \<Rightarrow> nat \<Rightarrow> int" where
  "find_char s c start = find_from c start (drop start s)"

text \<open>\<open>str.splitlines()\<close>: a carriage return followed by a line feed is one boundary, and
  no empty line is added after a final boundary.\<close>

fun splitlines_from :: "string \<Rightarrow> string \<Rightarrow> string list" where
  "splitlines_from cur [] = (if cur = [] then [] else [cur])"
| "splitlines_from cur [c] =
     (if islinebreak c then [cur] else [cur @ [c]])"
| "splitlines_from cur (c # c' # cs) =
     (if c = CHR 0x0D \<and> c' = CHR 0x0A then cur # splitlines_from [] cs
      else if islinebreak c then cur # splitlines_from [] (c' # cs)
      else splitlines_from (cur @ [c]) (c' # cs))"

definition splitlines :: "string \<Rightarrow> string list" where
  "splitlines s = splitlines_from [] s"

section \<open>Tokens and errors\<close>

datatype Tokens = T_comment | T_eol_comment | T_file | T_pattern | T_name
  | T_open_brace | T_close_brace | T_comma | T_value | T_end_of_file

datatype States = seek_file | start1 | start2 | seek_pattern
  | start_formal | seek_name | post_name
  | start_actual_first | start_actual_next
  | seek_value | post_value

text \<open>
  The exceptions of the program. A \<open>ParseError\<close> message is an f-string over the source
  name, the line, the column and, for an unexpected combination, the names of the state
  and of the token; the model keeps these parts instead of the formatted text.
  \<open>ValueError\<close> carries the row, its item count and the expected count.
  \<open>NestedComment\<close> is not an exception: it marks the three places where Python wraps an
  already wrapped value (or a comment line) in a second \<open>with_comment\<close>, a value that
  the typed document below does not hold.
\<close>

datatype error =
    ParseError_quote string nat nat
  | ParseError_state string nat nat States Tokens
  | IndexError
  | TypeError
  | AttributeError
  | ValueError "string list" nat nat
  | NestedComment

text \<open>A token as \<open>get_token\<close> yields it: kind, literal, line number, column.\<close>

type_synonym token = "Tokens \<times> string \<times> nat \<times> nat"

section \<open>The tokenizer\<close>

definition is_name_char :: "char \<Rightarrow> bool" where
  "is_name_char c = (isalnum c \<or> c \<in> set ''_+-:'')"

definition classify :: "string \<Rightarrow> Tokens" where
  "classify text = (if list_all is_name_char text then T_name else T_value)"

definition or_len :: "int \<Rightarrow> string \<Rightarrow> nat" where
  "or_len a temp = (if a < 0 then length temp else nat a)"

definition bare_end :: "string \<Rightarrow> nat" where
  "bare_end temp =
     (let a1 = or_len (find_char temp CHR '','' 0) temp;
          a2 = or_len (find_char temp CHR ''{'' 0) temp;
          a3 = or_len (find_char temp CHR ''}'' 0) temp;
          a4 = or_len (find_char temp CHR '' '' 0) temp
      in min (min a1 a2) (min a3 a4))"

text \<open>
  The \<open>while len(temp) > 0\<close> loop over one line. The source strips leading white space
  before the loop and after every token; the model strips at the head of each round,
  which is the same sequence of values of \<open>temp\<close>. The result is the tokens yielded and
  the exception that ends the generator, if any: the parser consumes the tokens before it
  meets the exception.
\<close>

definition yield :: "token \<Rightarrow> token list \<times> error option \<Rightarrow> token list \<times> error option" where
  "yield t r = (t # fst r, snd r)"

lemma lstrip_length: "length (lstrip s) \<le> length s"
  by (simp add: lstrip_def length_dropWhile_le)

lemma find_from_ge: "0 \<le> find_from c k xs \<Longrightarrow> int k \<le> find_from c k xs"
  by (induction xs arbitrary: k) (auto split: if_splits, fastforce)

lemma find_from_zero: "find_from c k (x # xs) = int k \<Longrightarrow> x = c"
proof (cases "x = c")
  case False
  assume h: "find_from c k (x # xs) = int k"
  with False have e: "find_from c (Suc k) xs = int k" by simp
  then have "0 \<le> find_from c (Suc k) xs" by simp
  from find_from_ge [OF this] e show ?thesis by simp
qed simp

lemma bare_end_pos:
  assumes "temp \<noteq> []" "hd temp \<noteq> CHR '',''" "hd temp \<noteq> CHR ''{''"
    "hd temp \<noteq> CHR ''}''" "hd temp \<noteq> CHR '' ''"
  shows "0 < bare_end temp"
proof -
  obtain x xs where t: "temp = x # xs" using assms(1) by (cases temp) auto
  have pos: "0 < or_len (find_char temp c 0) temp" if "x \<noteq> c" for c
  proof -
    have "find_from c 0 (x # xs) \<noteq> 0" using find_from_zero [of c 0 x xs] that by auto
    then show ?thesis by (auto simp: or_len_def find_char_def t)
  qed
  show ?thesis using assms(2-5) pos by (simp add: bare_end_def Let_def t)
qed

function scan :: "string \<Rightarrow> nat \<Rightarrow> nat \<Rightarrow> string \<Rightarrow> token list \<times> error option" where
  "scan src lineno sz temp0 =
     (let temp = lstrip temp0 in
      if temp = [] then ([], None)
      else
        let col = sz - length temp in
        if startswith temp ''#'' then ([(T_eol_comment, rstrip temp, lineno, col)], None)
        else if startswith temp ''file'' then
          yield (T_file, [], lineno, col) (scan src lineno sz (drop 4 temp))
        else if startswith temp ''pattern'' then
          yield (T_pattern, [], lineno, col) (scan src lineno sz (drop 7 temp))
        else if startswith temp ''{'' then
          yield (T_open_brace, [], lineno, col) (scan src lineno sz (drop 1 temp))
        else if startswith temp ''}'' then
          yield (T_close_brace, [], lineno, col) (scan src lineno sz (drop 1 temp))
        else if startswith temp '','' then
          yield (T_comma, [], lineno, col) (scan src lineno sz (drop 1 temp))
        else if startswith temp [CHR 0x22] then
          (let q = find_char temp (CHR 0x22) 1 in
           if q < 0 then ([], Some (ParseError_quote src lineno col))
           else yield (T_value, take (nat (q + 1)) temp, lineno, col)
                  (scan src lineno sz (drop (nat (q + 1)) temp)))
        else
          (let a = bare_end temp; text = rstrip (take a temp) in
           yield (classify text, text, lineno, col) (scan src lineno sz (drop a temp))))"
  by pat_completeness auto

lemma lstrip_hd: "lstrip s \<noteq> [] \<Longrightarrow> \<not> isspace (hd (lstrip s))"
  unfolding lstrip_def using hd_dropWhile by blast

lemma startswith_one: "s \<noteq> [] \<Longrightarrow> startswith s [c] = (hd s = c)"
  by (cases s) (auto simp: startswith_def)

lemma lstrip_drop_less: "lstrip s \<noteq> [] \<Longrightarrow> 0 < k \<Longrightarrow> length (lstrip s) - k < length s"
  using lstrip_length [of s] by (cases "lstrip s") auto

termination scan
proof (relation "measure (\<lambda>(src, lineno, sz, temp0). length temp0)", goal_cases)
  case 1
  show ?case by simp
next
  case (8 src lineno sz temp0 temp col a tx)
  have ne: "lstrip temp0 \<noteq> []" using 8 by simp
  have "\<not> isspace (hd temp)" using lstrip_hd [OF ne] 8 by simp
  then have sp: "hd temp \<noteq> CHR '' ''" by (auto simp: isspace_def)
  have "0 < bare_end temp"
    using 8 sp by (intro bare_end_pos) (simp_all add: startswith_one)
  then show ?case using 8 ne by (simp add: lstrip_drop_less)
qed (auto intro!: lstrip_drop_less)

declare scan.simps [simp del]


text \<open>
  The \<open>for line in lines\<close> loop of \<open>get_token\<close>; \<open>lineno\<close> is the number of lines
  read before this one.
\<close>

fun get_lines :: "string \<Rightarrow> nat \<Rightarrow> string list \<Rightarrow> token list \<times> error option" where
  "get_lines src lineno [] = ([], None)"
| "get_lines src lineno (line # rest) =
     (let lineno = lineno + 1;
          temp = rstrip line;
          sz = length temp + 1;
          temp = lstrip temp
      in if length temp = 0 \<or> hd temp = CHR ''#'' then
           yield (T_comment, rstrip line, lineno, 0) (get_lines src lineno rest)
         else
           (case scan src lineno sz temp of
              (toks, Some e) \<Rightarrow> (toks, Some e)
            | (toks, None) \<Rightarrow>
                (let r = get_lines src lineno rest in (toks @ fst r, snd r))))"

text \<open>
  The column of the final \<open>end_of_file\<close> token is the value \<open>col\<close> has when the loop
  ends: the column of the last token yielded (0 for a comment line), or 0 when there was
  no line.
\<close>

definition last_col :: "token list \<Rightarrow> nat" where
  "last_col toks = (if toks = [] then 0 else snd (snd (snd (last toks))))"

definition get_token :: "string \<Rightarrow> string \<Rightarrow> token list \<times> error option" where
  "get_token src contents =
     (let lines = splitlines contents in
      case get_lines src 0 lines of
        (toks, Some e) \<Rightarrow> (toks, Some e)
      | (toks, None) \<Rightarrow> (toks @ [(T_end_of_file, [], length lines, last_col toks)], None))"

section \<open>The document\<close>

text \<open>
  A value that may carry a trailing comment: the value itself, or the named tuple
  \<open>with_comment(item, comment)\<close>.
\<close>

datatype 'a annotated = Plain 'a | with_comment 'a string

fun item_of :: "'a annotated \<Rightarrow> 'a" where
  "item_of (Plain x) = x"
| "item_of (with_comment x c) = x"

fun comment_of :: "'a annotated \<Rightarrow> string option" where
  "comment_of (Plain x) = None"
| "comment_of (with_comment x c) = Some c"

fun set_item :: "'a annotated \<Rightarrow> 'a \<Rightarrow> 'a annotated" where
  "set_item (Plain x) y = Plain y"
| "set_item (with_comment x c) y = with_comment y c"

text \<open>An entry of \<open>actual\<close>: a comment or blank line (a \<open>str\<close>), or a row of values.\<close>

datatype actual_entry = Comment_line string | Row "string list annotated"

text \<open>The dictionary \<open>d\<close> of one substitution, with its five keys.\<close>

record substitution =
  template :: "string annotated"
  comments :: "string list"
  formal :: "string list annotated"
  actual :: "actual_entry list"
  eos_comment :: "string option"

text \<open>An item of the parse result: a string, or a dictionary.\<close>

datatype item = Line string | Substitution substitution

section \<open>The parser\<close>

text \<open>The warnings written to the error stream, kept as their parts.\<close>

datatype message =
    Extra_comma_name string
  | Missing_comma_names string string
  | Extra_comma_value string
  | Missing_comma_values string string

datatype warning = Warning string nat nat message

text \<open>
  The local variables of \<open>process_source\<close>. The variables \<open>template\<close>, \<open>comments\<close>,
  \<open>formal\<close>, \<open>actual\<close> and \<open>eos_comment\<close> are the fields of \<open>cur\<close>; Python's \<open>None\<close>
  is the empty value of each type (every read of one of them follows a write, by the
  order of the states). \<open>warnings\<close> collects what \<open>warning\<close> prints.
\<close>

record pstate =
  result :: "item list"
  state :: States
  cur :: substitution
  actual_row :: "string list"
  warnings :: "warning list"

definition no_substitution :: substitution where
  "no_substitution =
     \<lparr>template = Plain [], comments = [], formal = Plain [], actual = [], eos_comment = None\<rparr>"

definition initial :: pstate where
  "initial = \<lparr>result = [], state = seek_file, cur = no_substitution, actual_row = [],
     warnings = []\<rparr>"

text \<open>\<open>xs[len(xs) - 1]\<close>: on an empty list the index is \<open>-1\<close>, which is out of range.\<close>

definition last_item :: "'a list \<Rightarrow> error + 'a" where
  "last_item xs = (if xs = [] then Inl IndexError else Inr (last xs))"

text \<open>The same on \<open>formal\<close>; a \<open>with_comment\<close> has length 2 and its item 1 is the comment.\<close>

definition last_formal :: "string list annotated \<Rightarrow> error + string" where
  "last_formal f = (case f of Plain xs \<Rightarrow> last_item xs | with_comment xs c \<Rightarrow> Inr c)"

text \<open>\<open>formal.append(literal)\<close>; a named tuple has no \<open>append\<close>.\<close>

definition append_formal :: "string list annotated \<Rightarrow> string \<Rightarrow> error + string list annotated" where
  "append_formal f x = (case f of Plain xs \<Rightarrow> Inr (Plain (xs @ [x])) | with_comment xs c \<Rightarrow> Inl AttributeError)"

definition warn :: "string \<Rightarrow> nat \<Rightarrow> nat \<Rightarrow> message \<Rightarrow> pstate \<Rightarrow> pstate" where
  "warn src lineno col msg s = s\<lparr>warnings := warnings s @ [Warning src lineno col msg]\<rparr>"


text \<open>
  One round of the \<open>for\<close> loop of \<open>process_source\<close>: the chain of \<open>if\<close> and \<open>elif\<close> in
  the order of the source, the final \<open>else\<close> last. The \<open>break\<close> of
  \<open>(seek_file, end_of_file)\<close> is taken by the loop, \<open>process_tokens\<close> below.
\<close>

definition step :: "string \<Rightarrow> pstate \<Rightarrow> token \<Rightarrow> error + pstate" where
  "step src s tok =
     (let token = fst tok; literal = fst (snd tok);
          lineno = fst (snd (snd tok)); col = snd (snd (snd tok));
          st = (state s, token)
      in
      if st = (seek_file, T_comment) then
        Inr (s\<lparr>result := result s @ [Line literal]\<rparr>)
      else if st = (seek_file, T_end_of_file) then
        Inr s
      else if st = (seek_file, T_file) then
        Inr (s\<lparr>cur := (cur s)\<lparr>comments := [], formal := Plain [], actual := []\<rparr>,
               state := start1\<rparr>)
      else if st = (seek_file, T_eol_comment) then
        (case last_item (result s) of
           Inl e \<Rightarrow> Inl e
         | Inr (Line l) \<Rightarrow> Inl TypeError
         | Inr (Substitution d) \<Rightarrow>
             Inr (s\<lparr>result := butlast (result s) @ [Substitution (d\<lparr>eos_comment := Some literal\<rparr>)]\<rparr>))
      else if st = (start1, T_value) then
        Inr (s\<lparr>cur := (cur s)\<lparr>template := Plain literal\<rparr>, state := start2\<rparr>)
      else if st = (start2, T_open_brace) then
        Inr (s\<lparr>state := seek_pattern\<rparr>)
      else if st = (seek_pattern, T_eol_comment) then
        (case template (cur s) of
           Plain t \<Rightarrow> Inr (s\<lparr>cur := (cur s)\<lparr>template := with_comment t literal\<rparr>\<rparr>)
         | with_comment t c \<Rightarrow> Inl NestedComment)
      else if st = (seek_pattern, T_comment) then
        Inr (s\<lparr>cur := (cur s)\<lparr>comments := comments (cur s) @ [literal]\<rparr>\<rparr>)
      else if st = (seek_pattern, T_pattern) then
        Inr (s\<lparr>state := start_formal\<rparr>)
      else if st = (start_formal, T_open_brace) then
        Inr (s\<lparr>state := seek_name\<rparr>)
      else if st = (seek_name, T_name) then
        (case append_formal (formal (cur s)) literal of
           Inl e \<Rightarrow> Inl e
         | Inr f \<Rightarrow> Inr (s\<lparr>cur := (cur s)\<lparr>formal := f\<rparr>, state := post_name\<rparr>))
      else if st = (seek_name, T_comma) then
        (case last_formal (formal (cur s)) of
           Inl e \<Rightarrow> Inl e
         | Inr last_name \<Rightarrow>
             Inr ((warn src lineno col (Extra_comma_name last_name) s)\<lparr>state := seek_name\<rparr>))
      else if st = (seek_name, T_close_brace) then
        (case last_formal (formal (cur s)) of
           Inl e \<Rightarrow> Inl e
         | Inr last_name \<Rightarrow>
             Inr ((warn src lineno col (Extra_comma_name last_name) s)
                    \<lparr>state := start_actual_first\<rparr>))
      else if st = (post_name, T_name) then
        (case last_formal (formal (cur s)) of
           Inl e \<Rightarrow> Inl e
         | Inr last_name \<Rightarrow>
             (case append_formal (formal (cur s)) literal of
                Inl e \<Rightarrow> Inl e
              | Inr f \<Rightarrow>
                  Inr ((warn src lineno col (Missing_comma_names last_name literal) s)
                         \<lparr>cur := (cur s)\<lparr>formal := f\<rparr>, state := post_name\<rparr>)))
      else if st = (post_name, T_comma) then
        Inr (s\<lparr>state := seek_name\<rparr>)
      else if st = (post_name, T_close_brace) then
        Inr (s\<lparr>state := start_actual_first\<rparr>)
      else if st = (start_actual_first, T_eol_comment) then
        (case formal (cur s) of
           Plain f \<Rightarrow> Inr (s\<lparr>cur := (cur s)\<lparr>formal := with_comment f literal\<rparr>\<rparr>)
         | with_comment f c \<Rightarrow> Inl NestedComment)
      else if st = (start_actual_next, T_eol_comment) then
        (case last_item (actual (cur s)) of
           Inl e \<Rightarrow> Inl e
         | Inr (Row (Plain last_row)) \<Rightarrow>
             Inr (s\<lparr>cur := (cur s)\<lparr>actual :=
                    butlast (actual (cur s)) @ [Row (with_comment last_row literal)]\<rparr>\<rparr>)
         | Inr (Row (with_comment last_row c)) \<Rightarrow> Inl NestedComment
         | Inr (Comment_line l) \<Rightarrow> Inl NestedComment)
      else if st = (start_actual_first, T_comment) then
        Inr (s\<lparr>cur := (cur s)\<lparr>actual := actual (cur s) @ [Comment_line literal]\<rparr>\<rparr>)
      else if st = (start_actual_next, T_comment) then
        Inr (s\<lparr>cur := (cur s)\<lparr>actual := actual (cur s) @ [Comment_line literal]\<rparr>\<rparr>)
      else if st = (start_actual_first, T_open_brace) \<or>
              st = (start_actual_next, T_open_brace) then
        Inr (s\<lparr>actual_row := [], state := seek_value\<rparr>)
      else if st = (seek_value, T_value) \<or> st = (seek_value, T_name) then
        Inr (s\<lparr>actual_row := actual_row s @ [literal], state := post_value\<rparr>)
      else if st = (seek_value, T_comma) then
        (case last_item (actual_row s) of
           Inl e \<Rightarrow> Inl e
         | Inr last_value \<Rightarrow>
             Inr ((warn src lineno col (Extra_comma_value last_value) s)\<lparr>state := seek_value\<rparr>))
      else if st = (seek_value, T_close_brace) then
        (case last_item (actual_row s) of
           Inl e \<Rightarrow> Inl e
         | Inr last_value \<Rightarrow>
             Inr ((warn src lineno col (Extra_comma_value last_value) s)
                    \<lparr>cur := (cur s)\<lparr>actual := actual (cur s) @ [Row (Plain (actual_row s))]\<rparr>,
                     actual_row := [], state := start_actual_next\<rparr>))
      else if st = (post_value, T_value) \<or> st = (post_value, T_name) then
        (case last_item (actual_row s) of
           Inl e \<Rightarrow> Inl e
         | Inr last_value \<Rightarrow>
             Inr ((warn src lineno col (Missing_comma_values last_value literal) s)
                    \<lparr>actual_row := actual_row s @ [literal], state := post_value\<rparr>))
      else if st = (post_value, T_comma) then
        Inr (s\<lparr>state := seek_value\<rparr>)
      else if st = (post_value, T_close_brace) then
        Inr (s\<lparr>cur := (cur s)\<lparr>actual := actual (cur s) @ [Row (Plain (actual_row s))]\<rparr>,
               actual_row := [], state := start_actual_next\<rparr>)
      else if st = (start_actual_first, T_close_brace) \<or>
              st = (start_actual_next, T_close_brace) then
        Inr (s\<lparr>result := result s @ [Substitution (cur s)], cur := no_substitution,
               state := seek_file\<rparr>)
      else
        Inl (ParseError_state src lineno col (state s) token))"

text \<open>
  The \<open>for\<close> loop over the tokens of the generator: it stops at the \<open>break\<close>, at the first
  exception of a round, or at the end of the tokens, where the exception that ended
  the generator (if any) comes out.
\<close>

fun process_tokens :: "string \<Rightarrow> pstate \<Rightarrow> token list \<Rightarrow> error option \<Rightarrow> error + pstate" where
  "process_tokens src s [] e = (case e of None \<Rightarrow> Inr s | Some err \<Rightarrow> Inl err)"
| "process_tokens src s (tok # toks) e =
     (if (state s, fst tok) = (seek_file, T_end_of_file) then Inr s
      else case step src s tok of
             Inl err \<Rightarrow> Inl err
           | Inr s' \<Rightarrow> process_tokens src s' toks e)"

text \<open>\<open>process_source\<close>: the final state of the loop; the function returns its \<open>result\<close>.\<close>

definition parse :: "string \<Rightarrow> string \<Rightarrow> error + pstate" where
  "parse src contents =
     (case get_token src contents of (toks, e) \<Rightarrow> process_tokens src initial toks e)"

definition process_source :: "string \<Rightarrow> string \<Rightarrow> error + item list" where
  "process_source src contents =
     (case parse src contents of Inl e \<Rightarrow> Inl e | Inr s \<Rightarrow> Inr (result s))"

section \<open>The layout engine\<close>

definition quote_str :: "string \<Rightarrow> string" where
  "quote_str v =
     (if \<not> startswith v [CHR 0x22] \<and> \<not> endswith v [CHR 0x22] then [CHR 0x22] @ v @ [CHR 0x22]
      else v)"

text \<open>The loop \<open>while len(name) + len(gap) < widths[j]: gap = gap + " "\<close>.\<close>

function gap_loop :: "string \<Rightarrow> nat \<Rightarrow> string \<Rightarrow> string" where
  "gap_loop name w gap =
     (if length name + length gap < w then gap_loop name w (gap @ '' '') else gap)"
  by pat_completeness auto
termination
  by (relation "measure (\<lambda>(name, w, gap). w - (length name + length gap))") simp_all

declare gap_loop.simps [simp del]

text \<open>
  The \<open>for j, name in enumerate(item)\<close> loop of \<open>generate_row\<close>, from index \<open>j\<close> on:
  the text it puts.
\<close>

fun put_items :: "nat \<Rightarrow> nat \<Rightarrow> string list \<Rightarrow> nat list \<Rightarrow> string \<Rightarrow> string \<Rightarrow> nat list \<Rightarrow> string" where
  "put_items j number [] widths prefix spaces newlines = []"
| "put_items j number (name # rest) widths prefix spaces newlines =
     (let gap = gap_loop name (widths ! j) [] in
      name
      @ (if j < number - 1 then '','' @ spaces else [])
      @ (if j \<in> set newlines \<and> j < number - 1
         then ''\<newline>'' @ replicate (length prefix) CHR '' '' @ ''   ''
         else gap)
      @ put_items (Suc j) number rest widths prefix spaces newlines)"

text \<open>
  \<open>generate_row\<close>: the text written, or the \<open>IndexError\<close> of \<open>widths[j]\<close> when the row
  has more items than \<open>widths\<close>.
\<close>

definition generate_row ::
  "string list annotated \<Rightarrow> nat list \<Rightarrow> string \<Rightarrow> string \<Rightarrow> nat list \<Rightarrow> error + string" where
  "generate_row item widths prefix spaces newlines =
     (let c = comment_of item; names = item_of item; number = length names in
      if length widths < number then Inl IndexError
      else Inr (prefix @ '' { ''
                @ put_items 0 number names widths prefix spaces newlines
                @ (case c of None \<Rightarrow> '' }'' | Some c \<Rightarrow> '' }  '' @ c)
                @ ''\<newline>''))"

text \<open>
  The loop \<open>for j, value in enumerate(row)\<close> of \<open>generate_substitution\<close>: each value is
  quoted and written back into the row, and the width of its column grows to its length.
\<close>

fun quote_values :: "nat \<Rightarrow> string list \<Rightarrow> nat list \<Rightarrow> string list \<times> nat list" where
  "quote_values j [] widths = ([], widths)"
| "quote_values j (v # rest) widths =
     (let v = quote_str v; w = length v;
          widths = widths[j := max (widths ! j) w]
      in case quote_values (Suc j) rest widths of
           (rest', widths') \<Rightarrow> (v # rest', widths'))"

text \<open>
  The loop \<open>for row in actual\<close> that checks and quotes the rows. It returns the exception
  raised (if any), \<open>actual\<close> as the loop leaves it, and the widths.
\<close>

fun quote_rows :: "nat \<Rightarrow> actual_entry list \<Rightarrow> nat list \<Rightarrow> error option \<times> actual_entry list \<times> nat list" where
  "quote_rows number [] widths = (None, [], widths)"
| "quote_rows number (Comment_line c # rest) widths =
     (case quote_rows number rest widths of
        (e, rest', widths') \<Rightarrow> (e, Comment_line c # rest', widths'))"
| "quote_rows number (Row r # rest) widths =
     (let row = item_of r; n = length row in
      if n \<noteq> number then (Some (ValueError row n number), Row r # rest, widths)
      else case quote_values 0 row widths of
             (row', widths') \<Rightarrow>
               (case quote_rows number rest widths' of
                  (e, rest', widths'') \<Rightarrow> (e, Row (set_item r row') # rest', widths'')))"

text \<open>The loop that computes \<open>newlines\<close>, from index \<open>j\<close> on.\<close>

fun wrap_points :: "int \<Rightarrow> int \<Rightarrow> nat \<Rightarrow> int \<Rightarrow> nat list \<Rightarrow> nat list" where
  "wrap_points spacing width j tot [] = []"
| "wrap_points spacing width j tot (w # ws) =
     (let tot = tot + (int w + spacing + 1) in
      if tot > width then j # wrap_points spacing width (Suc j) 10 ws
      else wrap_points spacing width (Suc j) tot ws)"

text \<open>A comment line: one that starts with a space is stripped on the left and put
  behind \<open>pad\<close>.\<close>

definition reindent :: "string \<Rightarrow> string \<Rightarrow> string" where
  "reindent pad c = (if startswith c '' '' then pad @ lstrip c else c)"

text \<open>The loop \<open>for row in actual\<close> that writes the rows.\<close>

fun put_rows :: "actual_entry list \<Rightarrow> nat list \<Rightarrow> string \<Rightarrow> string \<Rightarrow> nat list \<Rightarrow> error option \<times> string" where
  "put_rows [] widths prefix spaces newlines = (None, [])"
| "put_rows (Comment_line row # rest) widths prefix spaces newlines =
     (case put_rows rest widths prefix spaces newlines of
        (e, out) \<Rightarrow> (e, reindent ''            '' row @ ''\<newline>'' @ out))"
| "put_rows (Row row # rest) widths prefix spaces newlines =
     (case generate_row row widths prefix spaces newlines of
        Inl e \<Rightarrow> (Some e, [])
      | Inr line \<Rightarrow>
          (case put_rows rest widths prefix spaces newlines of
             (e, out) \<Rightarrow> (e, line @ out)))"

text \<open>
  \<open>generate_substitution\<close> returns the exception raised (if any), the text written to
  \<open>target\<close>, and the dictionary as the call leaves it: the rows of \<open>actual\<close> are lists
  that the first loop updates in place.
\<close>

definition generate_substitution ::
  "substitution \<Rightarrow> int \<Rightarrow> int \<Rightarrow> int \<Rightarrow> error option \<times> string \<times> substitution" where
  "generate_substitution d indent spacing width =
     (let i = replicate (nat indent) CHR '' '';
          s = replicate (nat spacing) CHR '' '';
          f2 = item_of (formal d);
          number = length f2;
          widths = map length f2
      in case quote_rows number (actual d) widths of
           (Some e, actual', widths) \<Rightarrow> (Some e, [], d\<lparr>actual := actual'\<rparr>)
         | (None, actual', widths) \<Rightarrow>
             (let d' = d\<lparr>actual := actual'\<rparr>;
                  newlines = wrap_points spacing width 0 10 widths;
                  head = (case template d of
                            with_comment t c \<Rightarrow> ''file '' @ quote_str t @ '' {  '' @ c @ ''\<newline>''
                          | Plain t \<Rightarrow> ''file '' @ quote_str t @ '' {'' @ ''\<newline>'');
                  cs = concat (map (\<lambda>c. reindent ''    '' c @ ''\<newline>'') (comments d));
                  foot = (case eos_comment d of
                            None \<Rightarrow> ''}'' @ ''\<newline>''
                          | Some c \<Rightarrow> ''}  '' @ c @ ''\<newline>'')
              in case generate_row (formal d) widths (i @ ''pattern'') s newlines of
                   Inl e \<Rightarrow> (Some e, head @ cs, d')
                 | Inr frow \<Rightarrow>
                     (case put_rows actual' widths (i @ ''       '') s newlines of
                        (Some e, rows) \<Rightarrow> (Some e, head @ cs @ frow @ rows, d')
                      | (None, rows) \<Rightarrow> (None, head @ cs @ frow @ rows @ foot, d'))))"

text \<open>
  \<open>generate\<close>: the exception raised (if any), the text written and the document as the call
  leaves it. The type of the document leaves no room for the two \<open>TypeError\<close>s.
\<close>

fun generate :: "item list \<Rightarrow> int \<Rightarrow> int \<Rightarrow> int \<Rightarrow> error option \<times> string \<times> item list" where
  "generate [] indent spacing width = (None, [], [])"
| "generate (Line l # rest) indent spacing width =
     (case generate rest indent spacing width of
        (e, out, rest') \<Rightarrow> (e, strip l @ ''\<newline>'' @ out, Line l # rest'))"
| "generate (Substitution d # rest) indent spacing width =
     (case generate_substitution d indent spacing width of
        (Some e, out, d') \<Rightarrow> (Some e, out, Substitution d' # rest)
      | (None, out, d') \<Rightarrow>
          (case generate rest indent spacing width of
             (e, out', rest') \<Rightarrow> (e, out @ out', Substitution d' # rest')))"

text \<open>\<open>process\<close>: the exception raised (if any) and the text written to \<open>target\<close>.\<close>

definition process :: "string \<Rightarrow> string \<Rightarrow> int \<Rightarrow> int \<Rightarrow> int \<Rightarrow> error option \<times> string" where
  "process src contents indent spacing width =
     (case process_source src contents of
        Inl e \<Rightarrow> (Some e, [])
      | Inr sub_file \<Rightarrow>
          (case generate sub_file indent spacing width of (e, out, doc) \<Rightarrow> (e, out)))"

section \<open>The document after rendering\<close>

text \<open>
  What the first loop of \<open>generate_substitution\<close> leaves in the rows: each value
  replaced by \<open>quote_str\<close> of it; comment lines and trailing comments as they were.
\<close>

fun quoted_entry :: "actual_entry \<Rightarrow> actual_entry" where
  "quoted_entry (Comment_line c) = Comment_line c"
| "quoted_entry (Row r) = Row (set_item r (map quote_str (item_of r)))"

fun quoted_item :: "item \<Rightarrow> item" where
  "quoted_item (Line l) = Line l"
| "quoted_item (Substitution d) = Substitution (d\<lparr>actual := map quoted_entry (actual d)\<rparr>)"

section \<open>Lemmas on the quoting loops\<close>

lemma quote_values_fst: "fst (quote_values j vs ws) = map quote_str vs"
  by (induction vs arbitrary: j ws) (simp_all add: Let_def case_prod_beta)

lemma quote_values_length: "length (snd (quote_values j vs ws)) = length ws"
  by (induction vs arbitrary: j ws) (simp_all add: Let_def case_prod_beta)

lemma quote_values_mono: "ws ! k \<le> snd (quote_values j vs ws) ! k"
proof (induction vs arbitrary: j ws)
  case Nil
  show ?case by simp
next
  case (Cons v vs)
  let ?ws = "ws[j := max (ws ! j) (length (quote_str v))]"
  have "ws ! k \<le> ?ws ! k"
    by (cases "k = j"; cases "j < length ws") (simp_all add: list_update_beyond)
  also have "\<dots> \<le> snd (quote_values (Suc j) vs ?ws) ! k" by (rule Cons.IH)
  finally show ?case by (simp add: Let_def case_prod_beta)
qed

lemma quote_values_bound:
  "j + length vs \<le> length ws \<Longrightarrow> i < length vs \<Longrightarrow>
   length (quote_str (vs ! i)) \<le> snd (quote_values j vs ws) ! (j + i)"
proof (induction vs arbitrary: j ws i)
  case Nil
  then show ?case by simp
next
  case (Cons v vs)
  let ?ws = "ws[j := max (ws ! j) (length (quote_str v))]"
  show ?case
  proof (cases i)
    case 0
    have "length (quote_str v) \<le> ?ws ! j" using Cons.prems by simp
    also have "\<dots> \<le> snd (quote_values (Suc j) vs ?ws) ! j" by (rule quote_values_mono)
    finally show ?thesis using 0 by (simp add: Let_def case_prod_beta)
  next
    case (Suc i')
    have "length (quote_str (vs ! i')) \<le> snd (quote_values (Suc j) vs ?ws) ! (Suc j + i')"
      using Cons.prems Suc by (intro Cons.IH) simp_all
    then show ?thesis using Suc by (simp add: Let_def case_prod_beta)
  qed
qed

lemma quote_rows_error:
  "Row r \<in> set acts \<Longrightarrow> length (item_of r) \<noteq> number \<Longrightarrow>
   \<exists>r'. Row r' \<in> set acts \<and> length (item_of r') \<noteq> number \<and>
     fst (quote_rows number acts ws) = Some (ValueError (item_of r') (length (item_of r')) number)"
proof (induction acts arbitrary: ws)
  case Nil
  then show ?case by simp
next
  case (Cons a acts)
  show ?case
  proof (cases a)
    case (Comment_line c)
    with Cons.prems have "Row r \<in> set acts" by auto
    from Cons.IH [OF this Cons.prems(2), of ws] Comment_line show ?thesis
      by (auto split: prod.splits)
  next
    case (Row r0)
    show ?thesis
    proof (cases "length (item_of r0) = number")
      case False
      with Row show ?thesis by (auto simp: Let_def)
    next
      case True
      with Row Cons.prems have "Row r \<in> set acts" by auto
      from Cons.IH [OF this Cons.prems(2), of "snd (quote_values 0 (item_of r0) ws)"] Row True
      show ?thesis by (auto simp: Let_def split: prod.splits)
    qed
  qed
qed

lemma quote_rows_ok:
  "quote_rows number acts ws = (None, acts', ws') \<Longrightarrow>
   acts' = map quoted_entry acts \<and> length ws' = length ws \<and>
   (\<forall>r. Row r \<in> set acts \<longrightarrow> length (item_of r) = number) \<and>
   (\<forall>k. ws ! k \<le> ws' ! k)"
proof (induction acts arbitrary: ws acts' ws')
  case Nil
  then show ?case by simp
next
  case (Cons a acts)
  show ?case
  proof (cases a)
    case (Comment_line c)
    with Cons.prems obtain rest where
      r: "quote_rows number acts ws = (None, rest, ws')" and a: "acts' = Comment_line c # rest"
      by (auto split: prod.splits)
    from Cons.IH [OF r] a Comment_line show ?thesis by auto
  next
    case (Row r0)
    let ?ws = "snd (quote_values 0 (item_of r0) ws)"
    from Row Cons.prems have len: "length (item_of r0) = number"
      by (auto simp: Let_def split: if_splits)
    with Row Cons.prems obtain rest where
      r: "quote_rows number acts ?ws = (None, rest, ws')"
      and a: "acts' = Row (set_item r0 (fst (quote_values 0 (item_of r0) ws))) # rest"
      by (auto simp: Let_def split: prod.splits)
    have m: "ws ! k \<le> ws' ! k" for k
      using quote_values_mono [of ws k 0 "item_of r0"] Cons.IH [OF r] le_trans by blast
    from Cons.IH [OF r] a Row len m show ?thesis
      by (auto simp: quote_values_fst quote_values_length)
  qed
qed

lemma quote_rows_bound:
  "quote_rows number acts ws = (None, acts', ws') \<Longrightarrow> length ws = number \<Longrightarrow>
   Row r \<in> set acts' \<Longrightarrow> i < number \<Longrightarrow>
   length (item_of r) = number \<and> length (item_of r ! i) \<le> ws' ! i"
proof (induction acts arbitrary: ws acts' ws')
  case Nil
  then show ?case by simp
next
  case (Cons a acts)
  show ?case
  proof (cases a)
    case (Comment_line c)
    with Cons.prems obtain rest where
      r: "quote_rows number acts ws = (None, rest, ws')" and a: "acts' = Comment_line c # rest"
      by (auto split: prod.splits)
    from Cons.IH [OF r Cons.prems(2) _ Cons.prems(4)] a Cons.prems(3) show ?thesis by auto
  next
    case (Row r0)
    let ?ws = "snd (quote_values 0 (item_of r0) ws)"
    from Row Cons.prems have len: "length (item_of r0) = number"
      by (auto simp: Let_def split: if_splits)
    with Row Cons.prems obtain rest where
      r: "quote_rows number acts ?ws = (None, rest, ws')"
      and a0: "acts' = Row (set_item r0 (fst (quote_values 0 (item_of r0) ws))) # rest"
      by (auto simp: Let_def split: prod.splits)
    have a: "acts' = Row (set_item r0 (map quote_str (item_of r0))) # rest"
      using a0 by (simp add: quote_values_fst)
    have l: "length ?ws = number" using Cons.prems(2) by (simp add: quote_values_length)
    show ?thesis
    proof (cases "Row r \<in> set rest")
      case True
      from Cons.IH [OF r l True Cons.prems(4)] show ?thesis .
    next
      case False
      with a Cons.prems(3) have e: "r = set_item r0 (map quote_str (item_of r0))" by simp
      have i: "item_of r = map quote_str (item_of r0)" unfolding e by (cases r0) simp_all
      have "length (quote_str (item_of r0 ! i)) \<le> ?ws ! (0 + i)"
        using len Cons.prems(2,4) by (intro quote_values_bound) simp_all
      also have "\<dots> \<le> ws' ! i" using quote_rows_ok [OF r] by simp
      finally show ?thesis using i len Cons.prems(4) by simp
    qed
  qed
qed


lemma bare_end_lstrip_pos:
  assumes "lstrip t \<noteq> []" "\<not> startswith (lstrip t) '',''" "\<not> startswith (lstrip t) ''{''"
    "\<not> startswith (lstrip t) ''}''"
  shows "0 < bare_end (lstrip t)"
proof -
  have "\<not> isspace (hd (lstrip t))" using lstrip_hd [OF assms(1)] .
  then have "hd (lstrip t) \<noteq> CHR '' ''" by (auto simp: isspace_def)
  with assms show ?thesis by (intro bare_end_pos) (simp_all add: startswith_one)
qed

lemma snd_yield: "snd (yield t r) = snd r"
  by (simp add: yield_def)

lemma scan_error:
  "snd (scan src lineno sz t) = Some e \<Longrightarrow> \<exists>c. e = ParseError_quote src lineno c"
proof (induction "length t" arbitrary: t rule: less_induct)
  case less
  let ?t = "lstrip t"
  have IH: "\<exists>c. e = ParseError_quote src lineno c"
    if "0 < k" "?t \<noteq> []" "snd (scan src lineno sz (drop k ?t)) = Some e" for k
    using less.hyps [of "drop k ?t"] lstrip_drop_less [of t k] that by simp
  have b: "0 < bare_end ?t"
    if "?t \<noteq> []" "\<not> startswith ?t '',''" "\<not> startswith ?t ''{''" "\<not> startswith ?t ''}''"
    using that by (rule bare_end_lstrip_pos)
  have q: "0 < nat (find_char ?t (CHR 0x22) 1 + 1)" if "\<not> find_char ?t (CHR 0x22) 1 < 0"
    using that by simp
  from less.prems show ?case
    apply (subst (asm) scan.simps)
    apply (simp only: Let_def snd_yield split: if_splits)
    apply (simp_all only: snd_conv option.simps)
    subgoal using IH [of 4] by simp
    subgoal using IH [of 7] by simp
    subgoal using IH [of 1] by simp
    subgoal using IH [of 1] by simp
    subgoal using IH [of 1] by simp
    subgoal by blast
    subgoal using IH [of "nat (find_char ?t (CHR 0x22) 1 + 1)"] q by simp
    subgoal using IH [of "bare_end ?t"] b by simp
    done
qed

lemma get_lines_error:
  "snd (get_lines src lineno lines) = Some e \<Longrightarrow> \<exists>l c. e = ParseError_quote src l c"
proof (induction lines arbitrary: lineno)
  case Nil
  then show ?case by simp
next
  case (Cons line lines)
  let ?t = "lstrip (rstrip line)"
  show ?case
  proof (cases "length ?t = 0 \<or> hd ?t = CHR ''#''")
    case True
    with Cons.prems have "snd (get_lines src (lineno + 1) lines) = Some e"
      by (simp add: Let_def snd_yield)
    then show ?thesis by (rule Cons.IH)
  next
    case False
    obtain toks e' where sc: "scan src (lineno + 1) (length (rstrip line) + 1) ?t = (toks, e')"
      by (cases "scan src (lineno + 1) (length (rstrip line) + 1) ?t")
    show ?thesis
    proof (cases e')
      case None
      with Cons.prems False sc have "snd (get_lines src (lineno + 1) lines) = Some e"
        by (simp add: Let_def)
      then show ?thesis by (rule Cons.IH)
    next
      case (Some a)
      with Cons.prems False sc have "a = e" by (simp add: Let_def)
      with scan_error [of src "lineno + 1" "length (rstrip line) + 1" ?t e] sc Some
      show ?thesis by auto
    qed
  qed
qed

lemma get_token_error:
  "snd (get_token src contents) = Some e \<Longrightarrow> \<exists>l c. e = ParseError_quote src l c"
  using get_lines_error [of src 0 "splitlines contents" e]
  by (auto simp: get_token_def Let_def split: prod.splits option.splits)

lemma step_not_ValueError: "step src s tok \<noteq> Inl (ValueError r n m)"
  apply (cases tok; cases "state s"; cases "fst tok")
  apply (simp_all add: step_def last_item_def last_formal_def append_formal_def
      split: sum.splits item.splits annotated.splits actual_entry.splits)
  done

lemma process_tokens_not_ValueError:
  "e \<noteq> Some (ValueError r n m) \<Longrightarrow> process_tokens src s toks e \<noteq> Inl (ValueError r n m)"
proof (induction toks arbitrary: s)
  case Nil
  then show ?case by (cases e) auto
next
  case (Cons tok toks)
  show ?case
  proof (cases "step src s tok")
    case (Inl err)
    with step_not_ValueError [of src s tok r n m] show ?thesis by auto
  next
    case (Inr s')
    with Cons.IH [OF Cons.prems, of s'] show ?thesis by auto
  qed
qed

lemma process_source_not_ValueError:
  "process_source src contents \<noteq> Inl (ValueError r n m)"
proof -
  obtain toks e where g: "get_token src contents = (toks, e)" by (cases "get_token src contents")
  have "e \<noteq> Some (ValueError r n m)"
    using get_token_error [of src contents] g by auto
  from process_tokens_not_ValueError [OF this, of src initial toks] g show ?thesis
    by (auto simp: process_source_def parse_def split: sum.splits)
qed

lemma generate_substitution_fails:
  "quote_rows (length (item_of (formal d))) (actual d) (map length (item_of (formal d))) =
     (Some e, as, ws) \<Longrightarrow>
   generate_substitution d indent spacing width = (Some e, [], d\<lparr>actual := as\<rparr>)"
  by (simp add: generate_substitution_def Let_def)

lemma generate_substitution_store:
  "snd (snd (generate_substitution d indent spacing width)) =
     d\<lparr>actual := fst (snd (quote_rows (length (item_of (formal d))) (actual d)
                              (map length (item_of (formal d)))))\<rparr>"
proof -
  obtain e1 as ws where q: "quote_rows (length (item_of (formal d))) (actual d)
      (map length (item_of (formal d))) = (e1, as, ws)"
    by (cases "quote_rows (length (item_of (formal d))) (actual d) (map length (item_of (formal d)))")
  show ?thesis
  proof (cases e1)
    case (Some e)
    with q generate_substitution_fails [of d e as ws] show ?thesis by simp
  next
    case None
    show ?thesis
      unfolding generate_substitution_def Let_def q None
      by (simp split: sum.split prod.split option.split)
  qed
qed

lemma generate_substitution_ok:
  assumes "fst (generate_substitution d indent spacing width) = None"
  shows "fst (quote_rows (length (item_of (formal d))) (actual d)
             (map length (item_of (formal d)))) = None"
proof (rule ccontr)
  assume n: "\<not> ?thesis"
  obtain e1 as ws where q: "quote_rows (length (item_of (formal d))) (actual d)
      (map length (item_of (formal d))) = (e1, as, ws)"
    by (cases "quote_rows (length (item_of (formal d))) (actual d) (map length (item_of (formal d)))")
  with n obtain e where "e1 = Some e" by (cases e1) auto
  with q generate_substitution_fails [of d e as ws indent spacing width] assms show False by simp
qed

section \<open>Positions in the rendered text\<close>

text \<open>
  The line (counted in line feeds) and the column (characters since the last line feed)
  at which a text ends; \<open>text_before j\<close> is what \<open>generate_row\<close> has put when it
  reaches item \<open>j\<close> of the row, so its end is where item \<open>j\<close> starts.
  \<open>column_widths\<close> and \<open>column_breaks\<close> are the \<open>widths\<close> and \<open>newlines\<close> that
  \<open>generate_substitution\<close> computes, \<open>formal_start\<close> and \<open>actual_start\<close> the text
  before item \<open>j\<close> of the formal row and of an actual row as it calls \<open>generate_row\<close>.
\<close>

definition line_of :: "string \<Rightarrow> nat" where
  "line_of txt = length (filter (\<lambda>c. c = CHR ''\<newline>'') txt)"

definition column_of :: "string \<Rightarrow> nat" where
  "column_of txt = length (takeWhile (\<lambda>c. c \<noteq> CHR ''\<newline>'') (rev txt))"

definition text_before ::
  "nat \<Rightarrow> string list annotated \<Rightarrow> nat list \<Rightarrow> string \<Rightarrow> string \<Rightarrow> nat list \<Rightarrow> string" where
  "text_before j item widths prefix spaces newlines =
     prefix @ '' { ''
     @ put_items 0 (length (item_of item)) (take j (item_of item)) widths prefix spaces newlines"

definition column_widths :: "substitution \<Rightarrow> nat list" where
  "column_widths d =
     snd (snd (quote_rows (length (item_of (formal d))) (actual d)
                 (map length (item_of (formal d)))))"

definition column_breaks :: "substitution \<Rightarrow> int \<Rightarrow> int \<Rightarrow> nat list" where
  "column_breaks d spacing width = wrap_points spacing width 0 10 (column_widths d)"

definition formal_start :: "substitution \<Rightarrow> int \<Rightarrow> int \<Rightarrow> int \<Rightarrow> nat \<Rightarrow> string" where
  "formal_start d indent spacing width j =
     text_before j (formal d) (column_widths d)
       (replicate (nat indent) CHR '' '' @ ''pattern'') (replicate (nat spacing) CHR '' '')
       (column_breaks d spacing width)"

definition actual_start ::
  "substitution \<Rightarrow> string list annotated \<Rightarrow> int \<Rightarrow> int \<Rightarrow> int \<Rightarrow> nat \<Rightarrow> string" where
  "actual_start d r indent spacing width j =
     text_before j r (column_widths d)
       (replicate (nat indent) CHR '' '' @ ''       '') (replicate (nat spacing) CHR '' '')
       (column_breaks d spacing width)"

section \<open>Lemmas on the rows\<close>

lemma gap_loop_replicate:
  "gap_loop name w gap = gap @ replicate (w - (length name + length gap)) CHR '' ''"
proof (induction name w gap rule: gap_loop.induct)
  case (1 name w gap)
  show ?case
  proof (cases "length name + length gap < w")
    case True
    then have "w - (length name + length gap) = Suc (w - (length name + length (gap @ '' '')))"
      by simp
    with True "1.IH" show ?thesis
      by (subst gap_loop.simps) (simp add: replicate_app_Cons_same)
  next
    case False
    then show ?thesis by (subst gap_loop.simps) simp
  qed
qed

lemma put_items_append:
  "put_items j n (xs @ ys) ws p sp nls =
     put_items j n xs ws p sp nls @ put_items (j + length xs) n ys ws p sp nls"
  by (induction xs arbitrary: j) (simp_all add: Let_def)

lemma line_of_append: "line_of (a @ b) = line_of a + line_of b"
  by (simp add: line_of_def)

lemma line_of_Cons: "line_of (c # b) = (if c = CHR ''\<newline>'' then 1 else 0) + line_of b"
  by (simp add: line_of_def)

lemma line_of_plain: "CHR ''\<newline>'' \<notin> set b \<Longrightarrow> line_of b = 0"
  by (induction b) (auto simp: line_of_def)

lemma column_of_plain:
  "CHR ''\<newline>'' \<notin> set b \<Longrightarrow> column_of (a @ b) = column_of a + length b"
proof -
  assume "CHR ''\<newline>'' \<notin> set b"
  then have "takeWhile (\<lambda>c. c \<noteq> CHR ''\<newline>'') (rev b @ rev a) =
      rev b @ takeWhile (\<lambda>c. c \<noteq> CHR ''\<newline>'') (rev a)"
    by (intro takeWhile_append2) auto
  then show ?thesis by (simp add: column_of_def)
qed

lemma column_of_newline:
  "CHR ''\<newline>'' \<notin> set b \<Longrightarrow> column_of (a @ CHR ''\<newline>'' # b) = length b"
proof -
  assume "CHR ''\<newline>'' \<notin> set b"
  then have "takeWhile (\<lambda>c. c \<noteq> CHR ''\<newline>'') (rev b @ CHR ''\<newline>'' # rev a) = rev b"
    by (subst takeWhile_append2) auto
  then show ?thesis by (simp add: column_of_def)
qed

text \<open>The text of one cell that is not the last of its row.\<close>

lemma put_items_cell:
  assumes "Suc j < n"
  shows "put_items j n [name] ws p sp nls =
     name @ '','' @ sp @
     (if j \<in> set nls then CHR ''\<newline>'' # replicate (length p) CHR '' '' @ ''   ''
      else replicate (ws ! j - length name) CHR '' '')"
  using assms by (simp add: Let_def gap_loop_replicate)

lemma text_before_Suc:
  assumes "Suc j < length (item_of item)"
  shows "text_before (Suc j) item ws p sp nls =
     text_before j item ws p sp nls @ put_items j (length (item_of item)) [item_of item ! j] ws p sp nls"
proof -
  have "take (Suc j) (item_of item) = take j (item_of item) @ [item_of item ! j]"
    using assms by (simp add: take_Suc_conv_app_nth)
  then show ?thesis using assms by (simp add: text_before_def put_items_append)
qed

lemma same_start:
  assumes len: "length (item_of a) = length (item_of b)"
    and j: "j < length (item_of a)"
    and pq: "length p = length q"
    and nl: "CHR ''\<newline>'' \<notin> set p" "CHR ''\<newline>'' \<notin> set q" "CHR ''\<newline>'' \<notin> set sp"
    and a: "\<forall>k<j. CHR ''\<newline>'' \<notin> set (item_of a ! k) \<and> length (item_of a ! k) \<le> ws ! k"
    and b: "\<forall>k<j. CHR ''\<newline>'' \<notin> set (item_of b ! k) \<and> length (item_of b ! k) \<le> ws ! k"
  shows "line_of (text_before j a ws p sp nls) = line_of (text_before j b ws q sp nls) \<and>
         column_of (text_before j a ws p sp nls) = column_of (text_before j b ws q sp nls)"
  using j a b
proof (induction j)
  case 0
  have "column_of ([] @ (p @ '' { '')) = column_of ([] @ (q @ '' { ''))"
    using nl pq by (subst (1 2) column_of_plain) auto
  then show ?case using nl by (simp add: text_before_def line_of_append line_of_plain)
next
  case (Suc j)
  let ?x = "item_of a ! j" and ?y = "item_of b ! j"
  let ?A = "text_before j a ws p sp nls" and ?B = "text_before j b ws q sp nls"
  have IH: "line_of ?A = line_of ?B" "column_of ?A = column_of ?B"
    using Suc by simp_all
  have x: "CHR ''\<newline>'' \<notin> set ?x" "length ?x \<le> ws ! j"
    and y: "CHR ''\<newline>'' \<notin> set ?y" "length ?y \<le> ws ! j"
    using Suc.prems by simp_all
  have sa: "Suc j < length (item_of a)" and sb: "Suc j < length (item_of b)"
    using Suc.prems len by simp_all
  show ?case
  proof (cases "j \<in> set nls")
    case True
    have ea: "text_before (Suc j) a ws p sp nls =
        (?A @ ?x @ '','' @ sp) @ CHR ''\<newline>'' # (replicate (length p) CHR '' '' @ ''   '')"
      using True sa by (simp add: text_before_Suc put_items_cell del: put_items.simps)
    have eb: "text_before (Suc j) b ws q sp nls =
        (?B @ ?y @ '','' @ sp) @ CHR ''\<newline>'' # (replicate (length q) CHR '' '' @ ''   '')"
      using True sb by (simp add: text_before_Suc put_items_cell del: put_items.simps)
    have "column_of (text_before (Suc j) a ws p sp nls) = length p + 3"
      unfolding ea by (subst column_of_newline) auto
    moreover have "column_of (text_before (Suc j) b ws q sp nls) = length q + 3"
      unfolding eb by (subst column_of_newline) auto
    moreover have "line_of (text_before (Suc j) a ws p sp nls) = line_of ?A + 1"
      unfolding ea using x nl by (simp add: line_of_append line_of_plain line_of_Cons)
    moreover have "line_of (text_before (Suc j) b ws q sp nls) = line_of ?B + 1"
      unfolding eb using y nl by (simp add: line_of_append line_of_plain line_of_Cons)
    ultimately show ?thesis using IH pq by simp
  next
    case False
    have ea: "text_before (Suc j) a ws p sp nls =
        ?A @ (?x @ '','' @ sp @ replicate (ws ! j - length ?x) CHR '' '')"
      using False sa by (simp add: text_before_Suc put_items_cell del: put_items.simps)
    have eb: "text_before (Suc j) b ws q sp nls =
        ?B @ (?y @ '','' @ sp @ replicate (ws ! j - length ?y) CHR '' '')"
      using False sb by (simp add: text_before_Suc put_items_cell del: put_items.simps)
    have "column_of (text_before (Suc j) a ws p sp nls) = column_of ?A + (ws ! j + 1 + length sp)"
      unfolding ea using x nl by (subst column_of_plain) auto
    moreover have "column_of (text_before (Suc j) b ws q sp nls) = column_of ?B + (ws ! j + 1 + length sp)"
      unfolding eb using y nl by (subst column_of_plain) auto
    moreover have "line_of (text_before (Suc j) a ws p sp nls) = line_of ?A"
      unfolding ea using x nl by (simp add: line_of_append line_of_plain line_of_Cons)
    moreover have "line_of (text_before (Suc j) b ws q sp nls) = line_of ?B"
      unfolding eb using y nl by (simp add: line_of_append line_of_plain line_of_Cons)
    ultimately show ?thesis using IH by simp
  qed
qed

lemma generate_row_split:
  assumes "j < length (item_of item)" "length (item_of item) \<le> length ws"
  shows "\<exists>rest. generate_row item ws p sp nls =
           Inr (text_before j item ws p sp nls @ item_of item ! j @ rest)"
proof -
  let ?n = "length (item_of item)"
  have "item_of item = take j (item_of item) @ item_of item ! j # drop (Suc j) (item_of item)"
    using assms(1) by (simp add: id_take_nth_drop)
  then have "put_items 0 ?n (item_of item) ws p sp nls =
      put_items 0 ?n (take j (item_of item)) ws p sp nls @
      put_items j ?n (item_of item ! j # drop (Suc j) (item_of item)) ws p sp nls"
    using assms(1) put_items_append [of 0 ?n "take j (item_of item)"
        "item_of item ! j # drop (Suc j) (item_of item)" ws p sp nls]
    by simp
  then show ?thesis using assms(2)
    by (simp add: generate_row_def text_before_def Let_def)
qed

lemma column_of_line_feed: "column_of (a @ ''\<newline>'') = 0"
  by (simp add: column_of_def)

lemma column_of_line_start: "column_of a = 0 \<Longrightarrow> column_of (a @ b) = column_of b"
proof -
  let ?P = "\<lambda>c. c \<noteq> CHR ''\<newline>''"
  assume "column_of a = 0"
  then have a: "takeWhile ?P (rev a) = []" by (simp add: column_of_def)
  show ?thesis
  proof (cases "\<forall>x\<in>set (rev b). ?P x")
    case True
    then have e1: "takeWhile ?P (rev b @ rev a) = rev b @ takeWhile ?P (rev a)"
      by (intro takeWhile_append2) auto
    have e2: "takeWhile ?P (rev b) = rev b" using True by (simp add: takeWhile_eq_all_conv)
    show ?thesis unfolding column_of_def rev_append e1 e2 a by simp
  next
    case False
    then have "\<exists>x\<in>set (rev b). \<not> ?P x" by blast
    then obtain x where "x \<in> set (rev b)" "\<not> ?P x" by blast
    then have "takeWhile ?P (rev b @ rev a) = takeWhile ?P (rev b)"
      by (rule takeWhile_append1)
    then show ?thesis by (simp add: column_of_def)
  qed
qed

lemma generate_row_line_feed:
  "generate_row item ws p sp nls = Inr line \<Longrightarrow> \<exists>x. line = x @ ''\<newline>''"
proof -
  assume g: "generate_row item ws p sp nls = Inr line"
  let ?c = "case comment_of item of None \<Rightarrow> '' }'' | Some c \<Rightarrow> '' }  '' @ c"
  have "line = (p @ '' { '' @ put_items 0 (length (item_of item)) (item_of item) ws p sp nls @ ?c)
      @ ''\<newline>''"
    using g by (simp add: generate_row_def Let_def split: if_splits)
  then show ?thesis by blast
qed

lemma generate_row_line_start:
  "generate_row item ws p sp nls = Inr line \<Longrightarrow> column_of (a @ line) = 0"
proof -
  assume "generate_row item ws p sp nls = Inr line"
  then obtain x where "line = x @ ''\<newline>''" using generate_row_line_feed by blast
  then have "a @ line = (a @ x) @ ''\<newline>''" by simp
  then show ?thesis by (simp only: column_of_line_feed)
qed

lemma put_rows_line_start:
  "put_rows acts ws p sp nls = (None, rows) \<Longrightarrow> column_of a = 0 \<Longrightarrow> column_of (a @ rows) = 0"
proof (induction acts arbitrary: a rows)
  case Nil
  then show ?case by simp
next
  case (Cons e acts)
  show ?case
  proof (cases e)
    case (Comment_line c)
    with Cons.prems obtain rest where r: "put_rows acts ws p sp nls = (None, rest)"
      and e: "rows = (reindent ''            '' c @ ''\<newline>'') @ rest"
      by (auto split: prod.splits)
    have "column_of ((a @ reindent ''            '' c) @ ''\<newline>'') = 0"
      by (rule column_of_line_feed)
    from Cons.IH [OF r this] e show ?thesis by simp
  next
    case (Row r0)
    with Cons.prems obtain l0 rest where g: "generate_row r0 ws p sp nls = Inr l0"
      and r: "put_rows acts ws p sp nls = (None, rest)" and e: "rows = l0 @ rest"
      by (auto split: sum.splits prod.splits)
    from Cons.IH [OF r generate_row_line_start [OF g, of a]] e show ?thesis by simp
  qed
qed

text \<open>The text of the rows splits at entry \<open>k\<close>: what the loop has written for the
  entries before it, the row, and the rest.\<close>

lemma put_rows_split:
  "put_rows acts ws p sp nls = (None, rows) \<Longrightarrow> k < length acts \<Longrightarrow> acts ! k = Row r \<Longrightarrow>
   \<exists>above rrow below. put_rows (take k acts) ws p sp nls = (None, above) \<and>
     generate_row r ws p sp nls = Inr rrow \<and> rows = above @ rrow @ below"
proof (induction acts arbitrary: rows k)
  case Nil
  then show ?case by simp
next
  case (Cons e acts)
  show ?case
  proof (cases k)
    case 0
    with Cons.prems have e: "e = Row r" by simp
    with Cons.prems(1) obtain l0 rest where g: "generate_row r ws p sp nls = Inr l0"
      and rows: "rows = l0 @ rest"
      by (auto split: sum.splits prod.splits)
    have "put_rows (take k (e # acts)) ws p sp nls = (None, []) \<and>
        generate_row r ws p sp nls = Inr l0 \<and> rows = [] @ l0 @ rest"
      using 0 g rows by simp
    then show ?thesis by blast
  next
    case (Suc k')
    with Cons.prems have k': "k' < length acts" "acts ! k' = Row r" by simp_all
    show ?thesis
    proof (cases e)
      case (Comment_line c)
      with Cons.prems(1) obtain rest where r: "put_rows acts ws p sp nls = (None, rest)"
        and e: "rows = (reindent ''            '' c @ ''\<newline>'') @ rest"
        by (auto split: prod.splits)
      from Cons.IH [OF r k'] obtain above rrow below where
        a: "put_rows (take k' acts) ws p sp nls = (None, above)"
        and g: "generate_row r ws p sp nls = Inr rrow" and s: "rest = above @ rrow @ below"
        by blast
      have "put_rows (take k (e # acts)) ws p sp nls =
          (None, (reindent ''            '' c @ ''\<newline>'') @ above) \<and>
        generate_row r ws p sp nls = Inr rrow \<and>
        rows = ((reindent ''            '' c @ ''\<newline>'') @ above) @ rrow @ below"
        using Suc Comment_line a g s e by simp
      then show ?thesis by blast
    next
      case (Row r0)
      with Cons.prems(1) obtain l0 rest where g0: "generate_row r0 ws p sp nls = Inr l0"
        and r: "put_rows acts ws p sp nls = (None, rest)" and e: "rows = l0 @ rest"
        by (auto split: sum.splits prod.splits)
      from Cons.IH [OF r k'] obtain above rrow below where
        a: "put_rows (take k' acts) ws p sp nls = (None, above)"
        and g: "generate_row r ws p sp nls = Inr rrow" and s: "rest = above @ rrow @ below"
        by blast
      have "put_rows (take k (e # acts)) ws p sp nls = (None, l0 @ above) \<and>
        generate_row r ws p sp nls = Inr rrow \<and> rows = (l0 @ above) @ rrow @ below"
        using Suc Row g0 a g s e by simp
      then show ?thesis by blast
    qed
  qed
qed

lemma comments_line_start:
  "column_of a = 0 \<Longrightarrow> column_of (a @ concat (map (\<lambda>c. f c @ ''\<newline>'') cs)) = 0"
proof (induction cs arbitrary: a)
  case Nil
  then show ?case by simp
next
  case (Cons c cs)
  have "column_of ((a @ f c) @ ''\<newline>'') = 0" by (rule column_of_line_feed)
  from Cons.IH [OF this] show ?case by simp
qed

text \<open>The text of a substitution: what is written before the formal row ends a line.\<close>

lemma generate_substitution_top:
  assumes "generate_substitution d indent spacing width = (None, out, d')"
  shows "\<exists>top frow rows foot.
     generate_row (formal d) (column_widths d) (replicate (nat indent) CHR '' '' @ ''pattern'')
       (replicate (nat spacing) CHR '' '') (column_breaks d spacing width) = Inr frow \<and>
     put_rows (actual d') (column_widths d) (replicate (nat indent) CHR '' '' @ ''       '')
       (replicate (nat spacing) CHR '' '') (column_breaks d spacing width) = (None, rows) \<and>
     out = top @ frow @ rows @ foot \<and> column_of top = 0"
proof -
  let ?n = "length (item_of (formal d))"
  have q0: "fst (quote_rows ?n (actual d) (map length (item_of (formal d)))) = None"
    using assms generate_substitution_ok [of d indent spacing width] by simp
  obtain as ws where q: "quote_rows ?n (actual d) (map length (item_of (formal d))) = (None, as, ws)"
    using q0 by (cases "quote_rows ?n (actual d) (map length (item_of (formal d)))") auto
  have ws: "column_widths d = ws" by (simp add: column_widths_def q)
  have d': "d' = d\<lparr>actual := as\<rparr>"
    using generate_substitution_store [of d indent spacing width] assms q by simp
  let ?pf = "replicate (nat indent) CHR '' '' @ ''pattern''"
  let ?pr = "replicate (nat indent) CHR '' '' @ ''       ''"
  let ?sp = "replicate (nat spacing) CHR '' ''"
  let ?nls = "wrap_points spacing width 0 10 ws"
  obtain frow where f: "generate_row (formal d) ws ?pf ?sp ?nls = Inr frow"
    using assms unfolding generate_substitution_def Let_def q
    by (cases "generate_row (formal d) ws ?pf ?sp ?nls") auto
  obtain e rows where r: "put_rows as ws ?pr ?sp ?nls = (e, rows)"
    by (cases "put_rows as ws ?pr ?sp ?nls")
  have e: "e = None"
    using assms unfolding generate_substitution_def Let_def q
    by (cases e) (simp_all add: f r)
  let ?head = "case template d of Plain t \<Rightarrow> ''file '' @ quote_str t @ '' {'' @ ''\<newline>''
      | with_comment t c \<Rightarrow> ''file '' @ quote_str t @ '' {  '' @ c @ ''\<newline>''"
  let ?cs = "concat (map (\<lambda>c. reindent ''    '' c @ ''\<newline>'') (comments d))"
  let ?foot = "case eos_comment d of None \<Rightarrow> ''}'' @ ''\<newline>'' | Some c \<Rightarrow> ''}  '' @ c @ ''\<newline>''"
  have o: "out = (?head @ ?cs) @ frow @ rows @ ?foot"
    using assms unfolding generate_substitution_def Let_def q
    by (simp add: f r e)
  have "\<exists>x. ?head = x @ ''\<newline>''"
  proof (cases "template d")
    case (Plain t)
    then have "?head = (''file '' @ quote_str t @ '' {'') @ ''\<newline>''" by simp
    then show ?thesis by blast
  next
    case (with_comment t c)
    then have "?head = (''file '' @ quote_str t @ '' {  '' @ c) @ ''\<newline>''" by simp
    then show ?thesis by blast
  qed
  then obtain x where "?head = x @ ''\<newline>''" by blast
  then have "column_of ?head = 0" by (simp only: column_of_line_feed)
  then have c0: "column_of (?head @ ?cs) = 0" by (rule comments_line_start)
  have p': "put_rows (actual d') ws ?pr ?sp ?nls = (None, rows)" using r e d' by simp
  show ?thesis unfolding column_breaks_def ws using f p' o c0 by blast
qed

section \<open>The scenario of the specification\<close>

text \<open>
  Claim C2. The input \<open>file "a.db" {\<close>, \<open> pattern { X, Y }\<close>, \<open> { "1", "2" }\<close>, \<open>}\<close>,
  rendered with indent 4, spacing 2 and width 120. The claim gives the rows as
  \<open>    pattern { X, Y }\<close> and \<open>            { "1", "2" }\<close>. The program writes two
  spaces after each comma (the spacing) and pads every name to the width of its column,
  which is 3 here, the length of a quoted value: the rows are
  \<open>    pattern { X,    Y   }\<close> and \<open>            { "1",  "2" }\<close>.
\<close>

theorem scenario_render:
  \<open>process ''a.sub'' ''file "a.db" {\<newline> pattern { X, Y }\<newline> { "1", "2" }\<newline>}\<newline>'' 4 2 120 =
     (None, ''file "a.db" {\<newline>    pattern { X,    Y   }\<newline>            { "1",  "2" }\<newline>}\<newline>'')\<close>
  by code_simp

theorem scenario_render_counterexample:
  \<open>process ''a.sub'' ''file "a.db" {\<newline> pattern { X, Y }\<newline> { "1", "2" }\<newline>}\<newline>'' 4 2 120 \<noteq>
     (None, ''file "a.db" {\<newline>    pattern { X, Y }\<newline>            { "1", "2" }\<newline>}\<newline>'')\<close>
  by code_simp

section \<open>Quoting\<close>

text \<open>
  Claim C3. Every value of an actual row is written in double quotes exactly once: a value
  without quotes gains one pair. The program leaves a value alone as soon as it starts
  or ends with a double quote. The unquoted value \<open>a"\<close> of the input below is written
  as it stands, without a pair of quotes around it.
\<close>

theorem stray_quote_not_quoted:
  \<open>process ''a.sub'' ''file "a.db" {\<newline> pattern { X }\<newline> { a" }\<newline>}\<newline>'' 4 2 120 =
     (None, ''file "a.db" {\<newline>    pattern { X  }\<newline>            { a" }\<newline>}\<newline>'')\<close>
  by code_simp

section \<open>Rendering a rendered file\<close>

text \<open>
  Claim C1. Rendering is a normal form: parsing and rendering the output of \<open>process\<close>
  gives that output again, byte for byte. An unquoted value with a double quote inside,
  \<open>a"b\<close> in the input below, neither starts nor ends with a quote, so \<open>quote_str\<close> writes
  it as \<open>"a"b"\<close>. The quoted branch of \<open>get_token\<close> ends a value at the first double quote
  after the opening one, so the second pass reads the two values \<open>"a"\<close> and \<open>b"\<close> where
  the first pass read one, and \<open>generate_substitution\<close> raises \<open>ValueError\<close> for a row of
  two values under one name before it writes anything: the second rendering is not the
  first one.
\<close>

theorem inner_quote_second_pass:
  \<open>process ''a.sub'' ''file "a.db" {\<newline> pattern { X }\<newline> { a"b }\<newline>}\<newline>'' 4 2 120 =
     (None, ''file "a.db" {\<newline>    pattern { X     }\<newline>            { "a"b" }\<newline>}\<newline>'')
   \<and> process ''a.sub'' ''file "a.db" {\<newline>    pattern { X     }\<newline>            { "a"b" }\<newline>}\<newline>'' 4 2 120 =
     (Some (ValueError [''"a"'', ''b"''] 2 1), [])\<close>
  by code_simp

section \<open>The width budget\<close>

text \<open>
  Claim C4. No line of a row is longer than \<open>width\<close> unless one value alone is. With
  width 60 and four names of 20, 20, 20 and 1 characters, the program breaks the formal
  row after the third name, the one with which the running total passes 60: the first
  line of the row has 81 visible characters, and no name is longer than 20.
\<close>

theorem width_exceeded:
  \<open>process ''a.sub''
     ''file "a.db" {\<newline>pattern { AAAAAAAAAAAAAAAAAAAA, BBBBBBBBBBBBBBBBBBBB, CCCCCCCCCCCCCCCCCCCC, D }\<newline>}\<newline>''
     4 2 60 =
     (None, ''file "a.db" {\<newline>    pattern { AAAAAAAAAAAAAAAAAAAA,  BBBBBBBBBBBBBBBBBBBB,  CCCCCCCCCCCCCCCCCCCC,  \<newline>              D }\<newline>}\<newline>'')
   \<and> length ''    pattern { AAAAAAAAAAAAAAAAAAAA,  BBBBBBBBBBBBBBBBBBBB,  CCCCCCCCCCCCCCCCCCCC,'' = 81\<close>
  by code_simp

section \<open>The transition table\<close>



section \<open>Commas\<close>

text \<open>
  Claim C7. A stray or missing comma around names or values is answered by a warning and
  the parse goes on. The branch for a comma in state \<open>seek_name\<close> reads the last name of
  \<open>formal\<close> for its message; with a comma before the first name, \<open>formal\<close> is empty
  and the read raises \<open>IndexError\<close>.
\<close>

theorem leading_comma_index_error:
  \<open>process_source ''a.sub'' ''file "a.db" {\<newline> pattern { , X }\<newline> { "1" }\<newline>}\<newline>'' =
     Inl IndexError\<close>
  by code_simp

text \<open>The scenario of the claim, a comma before the closing brace of the formal row: one
  warning, and \<open>formal = [X, Y]\<close>.\<close>

lemma trailing_comma_scenario:
  \<open>parse ''a.sub'' ''file "a.db" {\<newline> pattern { X, Y, }\<newline>}\<newline>'' =
     Inr \<lparr>result = [Substitution \<lparr>template = Plain ''"a.db"'', comments = [],
                       formal = Plain [''X'', ''Y''], actual = [], eos_comment = None\<rparr>],
          state = seek_file, cur = no_substitution, actual_row = [],
          warnings = [Warning ''a.sub'' 2 18 (Extra_comma_name ''Y'')]\<rparr>\<close>
  by code_simp

section \<open>A comment after the closing brace\<close>



section \<open>Rows of the wrong length\<close>

text \<open>
  Claim C8. When some row of a substitution does not have as many items as the formal
  row, \<open>generate_substitution\<close> raises \<open>ValueError\<close> for such a row, with the row (as
  it was parsed), its item count and the expected count, before anything of the
  substitution is written. The error belongs to rendering: \<open>process_source\<close> never
  raises it, and parses such a row without complaint (the witness).
\<close>

theorem row_count_mismatch:
  assumes "Row r \<in> set (actual d)"
    and "length (item_of r) \<noteq> length (item_of (formal d))"
  shows "(\<exists>r'. Row r' \<in> set (actual d) \<and>
            length (item_of r') \<noteq> length (item_of (formal d)) \<and>
            fst (generate_substitution d indent spacing width) =
              Some (ValueError (item_of r') (length (item_of r')) (length (item_of (formal d)))) \<and>
            fst (snd (generate_substitution d indent spacing width)) = []) \<and>
         (\<forall>src contents row n m. process_source src contents \<noteq> Inl (ValueError row n m))"
proof -
  from quote_rows_error [OF assms, of "map length (item_of (formal d))"]
  obtain r' where r': "Row r' \<in> set (actual d)"
    "length (item_of r') \<noteq> length (item_of (formal d))"
    "fst (quote_rows (length (item_of (formal d))) (actual d) (map length (item_of (formal d)))) =
       Some (ValueError (item_of r') (length (item_of r')) (length (item_of (formal d))))"
    by blast
  obtain e1 as ws where q: "quote_rows (length (item_of (formal d))) (actual d)
      (map length (item_of (formal d))) = (e1, as, ws)"
    by (cases "quote_rows (length (item_of (formal d))) (actual d) (map length (item_of (formal d)))")
  with r'(3) have "e1 = Some (ValueError (item_of r') (length (item_of r')) (length (item_of (formal d))))"
    by simp
  with q have "generate_substitution d indent spacing width =
      (Some (ValueError (item_of r') (length (item_of r')) (length (item_of (formal d)))), [],
       d\<lparr>actual := as\<rparr>)"
    by (simp add: generate_substitution_fails)
  then have "fst (generate_substitution d indent spacing width) =
      Some (ValueError (item_of r') (length (item_of r')) (length (item_of (formal d)))) \<and>
    fst (snd (generate_substitution d indent spacing width)) = []"
    by simp
  with r'(1,2) process_source_not_ValueError show ?thesis by blast
qed

theorem row_count_mismatch_witness:
  \<open>process_source ''a.sub'' ''file "a.db" {\<newline> pattern { X, Y }\<newline> { 1 }\<newline>}\<newline>'' =
     Inr [Substitution \<lparr>template = Plain ''"a.db"'', comments = [], formal = Plain [''X'', ''Y''],
            actual = [Row (Plain [''1''])], eos_comment = None\<rparr>] \<and>
   fst (generate_substitution \<lparr>template = Plain ''"a.db"'', comments = [], formal = Plain [''X'', ''Y''],
            actual = [Row (Plain [''1''])], eos_comment = None\<rparr> 4 2 120) =
     Some (ValueError [''1''] 1 2)\<close>
proof -
  let ?d = \<open>\<lparr>template = Plain ''"a.db"'', comments = [], formal = Plain [''X'', ''Y''],
            actual = [Row (Plain [''1''])], eos_comment = None\<rparr>\<close>
  have p: \<open>process_source ''a.sub'' ''file "a.db" {\<newline> pattern { X, Y }\<newline> { 1 }\<newline>}\<newline>'' =
     Inr [Substitution ?d]\<close>
    by code_simp
  from row_count_mismatch [of "Plain [''1'']" ?d 4 2 120]
  have "fst (generate_substitution ?d 4 2 120) = Some (ValueError [''1''] 1 2)"
    by simp
  with p show ?thesis by simp
qed

section \<open>What rendering does to the document\<close>

text \<open>
  Claim C9. Rendering does not leave the document as it was: the first loop of
  \<open>generate_substitution\<close> writes the quoted value back into the row (\<open>row[j] =
  value\<close>), and the second loop prints the rows it finds there. After \<open>generate\<close> has
  returned, the document is the one passed in with every value of every row replaced by
  \<open>quote_str\<close> of it; templates, comments, formal rows and trailing comments are
  unchanged.
\<close>

theorem render_quotes_in_place:
  assumes "fst (generate doc indent spacing width) = None"
  shows "snd (snd (generate doc indent spacing width)) = map quoted_item doc"
  using assms
proof (induction doc)
  case Nil
  then show ?case by simp
next
  case (Cons it doc)
  show ?case
  proof (cases it)
    case (Line l)
    with Cons show ?thesis by (auto split: prod.splits)
  next
    case (Substitution d)
    obtain e out d' where g: "generate_substitution d indent spacing width = (e, out, d')"
      by (cases "generate_substitution d indent spacing width")
    with Cons.prems Substitution have e: "e = None" by (cases e) auto
    have q0: "fst (quote_rows (length (item_of (formal d))) (actual d)
        (map length (item_of (formal d)))) = None"
      using g e generate_substitution_ok [of d indent spacing width] by simp
    obtain as ws where q: "quote_rows (length (item_of (formal d))) (actual d)
        (map length (item_of (formal d))) = (None, as, ws)"
      using q0 by (cases "quote_rows (length (item_of (formal d))) (actual d)
        (map length (item_of (formal d)))") auto
    have "d' = d\<lparr>actual := as\<rparr>"
      using generate_substitution_store [of d indent spacing width] g q by simp
    with quote_rows_ok [OF q] have "d' = d\<lparr>actual := map quoted_entry (actual d)\<rparr>"
      by simp
    with Cons Substitution g e show ?thesis by (auto split: prod.splits)
  qed
qed

theorem render_quotes_in_place_witness:
  "snd (snd (generate [Line ''# c'', Substitution \<lparr>template = Plain ''a.db'', comments = [],
       formal = Plain [''X''], actual = [Row (Plain [''1''])], eos_comment = None\<rparr>] 4 2 120)) =
   [Line ''# c'', Substitution \<lparr>template = Plain ''a.db'', comments = [],
       formal = Plain [''X''], actual = [Row (Plain [[CHR 0x22, CHR ''1'', CHR 0x22]])], eos_comment = None\<rparr>]"
proof -
  let ?doc = "[Line ''# c'', Substitution \<lparr>template = Plain ''a.db'', comments = [],
       formal = Plain [''X''], actual = [Row (Plain [''1''])], eos_comment = None\<rparr>]"
  have "fst (generate ?doc 4 2 120) = None" by code_simp
  from render_quotes_in_place [OF this] show ?thesis by (simp add: quote_str_def startswith_def endswith_def)
qed

theorem render_read_only_counterexample:
  "snd (snd (generate [Substitution \<lparr>template = Plain ''a.db'', comments = [],
       formal = Plain [''X''], actual = [Row (Plain [''1''])], eos_comment = None\<rparr>] 4 2 120)) \<noteq>
   [Substitution \<lparr>template = Plain ''a.db'', comments = [],
       formal = Plain [''X''], actual = [Row (Plain [''1''])], eos_comment = None\<rparr>]"
  by code_simp

section \<open>Column alignment\<close>

text \<open>
  Claim C5. In the text written for a substitution, item \<open>j\<close> of the formal row and
  item \<open>j\<close> of every actual row start at the same column of that text, and on the
  same line of their row. The text \<open>out\<close> is cut where the program writes it: \<open>top\<close>
  (the \<open>file\<close> line and the comments), the formal row, the entries of \<open>actual\<close> before
  entry \<open>k\<close>, the row at entry \<open>k\<close>, and the rest. Both rows begin at the start of a
  line of \<open>out\<close>, the item follows the text \<open>formal_start\<close> or \<open>actual_start\<close> of its
  row, and the columns are those of \<open>out\<close> up to the first character of the item. No
  name or value holds a line feed, which is so for every token of \<open>get_token\<close>, made
  from one line.
\<close>

theorem column_alignment:
  assumes "generate_substitution d indent spacing width = (None, out, d')"
    and "k < length (actual d')" and "actual d' ! k = Row r"
    and "j < length (item_of (formal d))"
    and "\<forall>v \<in> set (item_of (formal d)) \<union> set (item_of r). CHR ''\<newline>'' \<notin> set v"
  shows "\<exists>top frow above rrow below rest_f rest_r.
     out = top @ frow @ above @ rrow @ below \<and>
     generate_row (formal d) (column_widths d) (replicate (nat indent) CHR '' '' @ ''pattern'')
       (replicate (nat spacing) CHR '' '') (column_breaks d spacing width) = Inr frow \<and>
     put_rows (take k (actual d')) (column_widths d) (replicate (nat indent) CHR '' '' @ ''       '')
       (replicate (nat spacing) CHR '' '') (column_breaks d spacing width) = (None, above) \<and>
     generate_row r (column_widths d) (replicate (nat indent) CHR '' '' @ ''       '')
       (replicate (nat spacing) CHR '' '') (column_breaks d spacing width) = Inr rrow \<and>
     frow = formal_start d indent spacing width j @ item_of (formal d) ! j @ rest_f \<and>
     rrow = actual_start d r indent spacing width j @ item_of r ! j @ rest_r \<and>
     column_of top = 0 \<and> column_of (top @ frow @ above) = 0 \<and>
     line_of (formal_start d indent spacing width j) =
       line_of (actual_start d r indent spacing width j) \<and>
     column_of (top @ formal_start d indent spacing width j) =
       column_of (top @ frow @ above @ actual_start d r indent spacing width j)"
proof -
  let ?n = "length (item_of (formal d))"
  let ?pf = "replicate (nat indent) CHR '' '' @ ''pattern''"
  let ?pr = "replicate (nat indent) CHR '' '' @ ''       ''"
  let ?sp = "replicate (nat spacing) CHR '' ''"
  let ?ws = "column_widths d"
  let ?nls = "column_breaks d spacing width"
  let ?fs = "formal_start d indent spacing width j"
  let ?as = "actual_start d r indent spacing width j"
  have q0: "fst (quote_rows ?n (actual d) (map length (item_of (formal d)))) = None"
    using assms(1) generate_substitution_ok [of d indent spacing width] by simp
  obtain as where q: "quote_rows ?n (actual d) (map length (item_of (formal d))) = (None, as, ?ws)"
    using q0 unfolding column_widths_def
    by (cases "quote_rows ?n (actual d) (map length (item_of (formal d)))") auto
  have d': "d' = d\<lparr>actual := as\<rparr>"
    using generate_substitution_store [of d indent spacing width] assms(1) q by simp
  have lw: "length ?ws = ?n" using quote_rows_ok [OF q] by simp
  have fb: "length (item_of (formal d) ! i) \<le> ?ws ! i" if "i < ?n" for i
  proof -
    have "map length (item_of (formal d)) ! i \<le> ?ws ! i" using quote_rows_ok [OF q] by blast
    then show ?thesis using that by simp
  qed
  have r: "Row r \<in> set as" using assms(2,3) d' nth_mem [of k "actual d'"] by simp
  have rb: "length (item_of r) = ?n \<and> length (item_of r ! i) \<le> ?ws ! i" if "i < ?n" for i
    using quote_rows_bound [OF q _ r that] by simp
  have rl: "length (item_of r) = ?n" using rb [OF assms(4)] by simp
  from generate_substitution_top [OF assms(1)] obtain top frow rows foot where
    f: "generate_row (formal d) ?ws ?pf ?sp ?nls = Inr frow"
    and p: "put_rows (actual d') ?ws ?pr ?sp ?nls = (None, rows)"
    and o: "out = top @ frow @ rows @ foot" and t0: "column_of top = 0"
    by blast
  from put_rows_split [OF p assms(2,3)] obtain above rrow below where
    a: "put_rows (take k (actual d')) ?ws ?pr ?sp ?nls = (None, above)"
    and g: "generate_row r ?ws ?pr ?sp ?nls = Inr rrow" and rows: "rows = above @ rrow @ below"
    by blast
  have o': "out = top @ frow @ above @ rrow @ (below @ foot)" using o rows by simp
  from generate_row_split [OF assms(4), of ?ws ?pf ?sp ?nls] f lw obtain rest_f where
    s1: "frow = ?fs @ item_of (formal d) ! j @ rest_f"
    by (auto simp: formal_start_def)
  from generate_row_split [of j r ?ws ?pr ?sp ?nls] g lw rl assms(4) obtain rest_r where
    s2: "rrow = ?as @ item_of r ! j @ rest_r"
    by (auto simp: actual_start_def)
  have "column_of (top @ frow) = 0" using f by (rule generate_row_line_start)
  from put_rows_line_start [OF a this] have t1: "column_of (top @ frow @ above) = 0" by simp
  have na: "\<forall>i<j. CHR ''\<newline>'' \<notin> set (item_of (formal d) ! i) \<and>
      length (item_of (formal d) ! i) \<le> ?ws ! i"
    using assms(4,5) fb by (auto simp: nth_mem)
  have nb: "\<forall>i<j. CHR ''\<newline>'' \<notin> set (item_of r ! i) \<and> length (item_of r ! i) \<le> ?ws ! i"
    using assms(4,5) rb rl by (auto simp: nth_mem)
  have "line_of (text_before j (formal d) ?ws ?pf ?sp ?nls) = line_of (text_before j r ?ws ?pr ?sp ?nls) \<and>
    column_of (text_before j (formal d) ?ws ?pf ?sp ?nls) = column_of (text_before j r ?ws ?pr ?sp ?nls)"
    using rl assms(4) na nb by (intro same_start) simp_all
  then have s3: "line_of ?fs = line_of ?as" and s4: "column_of ?fs = column_of ?as"
    by (simp_all add: formal_start_def actual_start_def)
  have "column_of (top @ ?fs) = column_of ?fs" using t0 by (rule column_of_line_start)
  moreover have "column_of ((top @ frow @ above) @ ?as) = column_of ?as"
    using t1 by (rule column_of_line_start)
  ultimately have s5: "column_of (top @ ?fs) = column_of (top @ frow @ above @ ?as)"
    using s4 by simp
  from o' f a g s1 s2 t0 t1 s3 s5 show ?thesis by blast
qed

theorem column_alignment_witness:
  "column_of (formal_start \<lparr>template = Plain ''a.db'', comments = [], formal = Plain [''X'', ''Y''],
        actual = [Row (Plain [''10'', ''2''])], eos_comment = None\<rparr> 4 2 120 1) = 21 \<and>
   column_of (actual_start \<lparr>template = Plain ''a.db'', comments = [], formal = Plain [''X'', ''Y''],
        actual = [Row (Plain [''10'', ''2''])], eos_comment = None\<rparr>
        (Plain [[CHR 0x22, CHR ''1'', CHR ''0'', CHR 0x22], [CHR 0x22, CHR ''2'', CHR 0x22]]) 4 2 120 1) = 21"
proof -
  let ?d = "\<lparr>template = Plain ''a.db'', comments = [], formal = Plain [''X'', ''Y''],
        actual = [Row (Plain [''10'', ''2''])], eos_comment = None\<rparr>"
  let ?r = "Plain [[CHR 0x22, CHR ''1'', CHR ''0'', CHR 0x22], [CHR 0x22, CHR ''2'', CHR 0x22]]"
  let ?fs = "formal_start ?d 4 2 120 1" and ?as = "actual_start ?d ?r 4 2 120 1"
  have g: "generate_substitution ?d 4 2 120 =
      (None, snd (process ''a.sub'' ''file a.db {pattern {X,Y} {10,2} }'' 4 2 120),
       ?d\<lparr>actual := [Row ?r]\<rparr>)"
    by code_simp
  have c: "column_of ?fs = 21" by code_simp
  have h2: "0 < length (actual (?d\<lparr>actual := [Row ?r]\<rparr>))" by simp
  have h3: "actual (?d\<lparr>actual := [Row ?r]\<rparr>) ! 0 = Row ?r" by simp
  have h4: "1 < length (item_of (formal ?d))" by simp
  have h5: "\<forall>v \<in> set (item_of (formal ?d)) \<union> set (item_of ?r). CHR ''\<newline>'' \<notin> set v" by simp
  from column_alignment [OF g h2 h3 h4 h5] obtain top frow above where
    t0: "column_of top = 0" and t1: "column_of (top @ frow @ above) = 0"
    and e: "column_of (top @ ?fs) = column_of (top @ frow @ above @ ?as)"
    by blast
  have "column_of (top @ ?fs) = column_of ?fs" using t0 by (rule column_of_line_start)
  moreover have "column_of ((top @ frow @ above) @ ?as) = column_of ?as"
    using t1 by (rule column_of_line_start)
  ultimately have "column_of ?fs = column_of ?as" using e by simp
  with c show ?thesis by simp
qed

end
